theory Spec2Isabelle
  imports Complex_Main "HOL-Library.Multiset"
begin

section \<open>Data model\<close>

text \<open>
  \<^verbatim>\<open>Vector\<close> and \<^verbatim>\<open>Matrix2D\<close> are the dense Eigen types of the toolbox. A
  \<^verbatim>\<open>double\<close> is modelled as a real number, a vector as the list of its coefficients
  and a matrix as the list of its rows.
\<close>

type_synonym Vector = "real list"
type_synonym Matrix2D = "real list list"

text \<open>The buffers of \<^verbatim>\<open>findVerticesNaive\<close> that are indexed at run time.\<close>

datatype buffer = Buf_m | Buf_b | Buf_boundary | Buf_result | Buf_enumerator

text \<open>
  Every way in which the two functions can fail to return: a failed \<^verbatim>\<open>assert\<close> (in a
  build that keeps assertions), an Eigen assignment between blocks of different sizes, and
  an index outside a buffer.
\<close>

datatype error = AssertionFailed | SizeMismatch | OutOfRange buffer

text \<open>
  \<^verbatim>\<open>size_t\<close> is an unsigned 64-bit integer: \<^verbatim>\<open>S - 1\<close> wraps around at \<^verbatim>\<open>S = 0\<close>.
\<close>

definition size_t_pred :: "nat \<Rightarrow> nat" where
  "size_t_pred S = (if S = 0 then 2 ^ 64 - 1 else S - 1)"

subsection \<open>Block and coefficient access\<close>

text \<open>\<^verbatim>\<open>row.head(S) = v\<close>: the first \<open>S\<close> coefficients of \<open>row\<close> are replaced by \<open>v\<close>.\<close>

definition set_head :: "nat \<Rightarrow> Vector \<Rightarrow> Vector \<Rightarrow> error + Vector" where
  "set_head S v rw =
     (if S \<le> length rw \<and> length v = S then Inr (v @ drop S rw) else Inl SizeMismatch)"

text \<open>\<^verbatim>\<open>xs[i] = v\<close> on the buffer \<open>buf\<close>.\<close>

definition set_coeff :: "buffer \<Rightarrow> 'a list \<Rightarrow> nat \<Rightarrow> 'a \<Rightarrow> error + 'a list" where
  "set_coeff buf xs i v = (if i < length xs then Inr (xs[i := v]) else Inl (OutOfRange buf))"

text \<open>\<^verbatim>\<open>result.head(S)\<close>, read.\<close>

definition vec_head :: "nat \<Rightarrow> Vector \<Rightarrow> error + Vector" where
  "vec_head S v = (if S \<le> length v then Inr (take S v) else Inl (OutOfRange Buf_result))"

section \<open>The subset enumerator\<close>

text \<open>
  Modelled from the spec: the class \<^verbatim>\<open>SubsetEnumerator\<close> of
  \<^verbatim>\<open>AIToolbox/Utils/Combinatorics.hpp\<close> is not among the sources. Section 4.1 of the
  specification describes it as a restartable sequence of every combination of a fixed size
  \<open>k\<close> drawn from an index range, in lexicographic order, with: reset to the first subset;
  a validity check (whether a current subset exists); read access to the current subset as
  an ordered sequence of \<open>k\<close> indices; and an advance to the next subset that returns the
  position of the first index that changed. Validity becomes false once all subsets have
  been produced.

  The state is the list of the subsets not yet left behind, the current one first.
\<close>

fun combinations :: "nat \<Rightarrow> nat list \<Rightarrow> nat list list" where
  "combinations 0 xs = [[]]"
| "combinations (Suc k) [] = []"
| "combinations (Suc k) (x # xs) = map ((#) x) (combinations k xs) @ combinations (Suc k) xs"

text \<open>
  Modelled from the spec: the state of the enumerator, which is constructed with a subset
  size and the bounds of the index range.
\<close>

record SubsetEnumerator =
  elementsN :: nat
  lowerBound :: nat
  upperBound :: nat
  pending :: "nat list list"

text \<open>Modelled from the spec: reset to the lexicographically first subset.\<close>

definition reset :: "SubsetEnumerator \<Rightarrow> SubsetEnumerator" where
  "reset e = e\<lparr>pending := combinations (elementsN e) [lowerBound e ..< upperBound e]\<rparr>"

text \<open>Modelled from the spec: the constructor, which leaves the enumerator reset.\<close>

definition makeSubsetEnumerator :: "nat \<Rightarrow> nat \<Rightarrow> nat \<Rightarrow> SubsetEnumerator" where
  "makeSubsetEnumerator k lo hi =
     reset \<lparr>elementsN = k, lowerBound = lo, upperBound = hi, pending = []\<rparr>"

text \<open>Modelled from the spec: the validity check, whether a current subset exists.\<close>

definition isValid :: "SubsetEnumerator \<Rightarrow> bool" where
  "isValid e = (pending e \<noteq> [])"

text \<open>
  Modelled from the spec: read access to the current subset (\<^verbatim>\<open>*enumerator\<close>), which the
  caller uses only while the enumerator is valid.
\<close>

definition current :: "SubsetEnumerator \<Rightarrow> nat list" where
  "current e = (case pending e of [] \<Rightarrow> [] | s # _ \<Rightarrow> s)"

text \<open>
  Modelled from the spec: the index at position \<open>i\<close> of the current subset
  (\<^verbatim>\<open>(*enumerator)[i]\<close>). Reading where there is no such index is an error.
\<close>

definition subset_at :: "SubsetEnumerator \<Rightarrow> nat \<Rightarrow> error + nat" where
  "subset_at e i =
     (case pending e of
        [] \<Rightarrow> Inl (OutOfRange Buf_enumerator)
      | s # _ \<Rightarrow> if i < length s then Inr (s ! i) else Inl (OutOfRange Buf_enumerator))"

text \<open>
  Modelled from the spec: the position of the first index in which two subsets differ.
\<close>

fun first_changed :: "nat list \<Rightarrow> nat list \<Rightarrow> nat" where
  "first_changed (x # xs) (y # ys) = (if x = y then Suc (first_changed xs ys) else 0)"
| "first_changed _ _ = 0"

text \<open>
  Modelled from the spec: the advance to the next subset in lexicographic order, which
  returns the position of the first index that changed (0 when no subset is left).
\<close>

definition advance :: "SubsetEnumerator \<Rightarrow> nat \<times> SubsetEnumerator" where
  "advance e =
     (case pending e of
        [] \<Rightarrow> (0, e)
      | s # rest \<Rightarrow>
          ((case rest of [] \<Rightarrow> 0 | t # _ \<Rightarrow> first_changed s t), e\<lparr>pending := rest\<rparr>))"

section \<open>Vertex enumeration\<close>

text \<open>
  The linear solver (\<^verbatim>\<open>colPivHouseholderQr().solve\<close>) is an external numeric
  capability: it is a parameter of the model, a function from the left-hand side and the
  right-hand side of the system to the solution vector.
\<close>

type_synonym solver = "Matrix2D \<Rightarrow> Vector \<Rightarrow> Vector"

text \<open>
  One call of the linear solver: the subset of the enumerator it was made for, the system
  handed over (\<^verbatim>\<open>m.topRows(counter)\<close>, \<^verbatim>\<open>b.head(counter)\<close>) and the vector returned.
\<close>

record solve_call =
  sc_subset :: "nat list"
  sc_lhs :: Matrix2D
  sc_rhs :: Vector
  sc_solution :: Vector

text \<open>
  The local variables of \<^verbatim>\<open>findVerticesNaive\<close> that live across loop iterations:
  the matrix \<^verbatim>\<open>m\<close>, the vectors \<^verbatim>\<open>boundary\<close>, \<^verbatim>\<open>b\<close> and \<^verbatim>\<open>result\<close>, and the
  output \<^verbatim>\<open>vertices\<close>; \<open>w_solved\<close> records the calls of the linear solver, in order.
\<close>

record workspace =
  w_m :: Matrix2D
  w_boundary :: Vector
  w_b :: Vector
  w_result :: Vector
  w_vertices :: "(Vector \<times> real) list"
  w_solved :: "solve_call list"

text \<open>
  The \<^verbatim>\<open>for\<close> loop over the positions \<^verbatim>\<open>last\<close>, ..., \<^verbatim>\<open>enumerator->size() - 1\<close> of
  the current subset, as a recursion over the indices at these positions. An index below
  \<^verbatim>\<open>alphasSize\<close> copies that old hyperplane into row \<^verbatim>\<open>counter\<close> of \<^verbatim>\<open>m\<close>; any other
  index clears one coefficient of \<^verbatim>\<open>boundary\<close>.
\<close>

fun fill_rows ::
  "Vector list \<Rightarrow> nat \<Rightarrow> nat list \<Rightarrow> nat \<times> Matrix2D \<times> Vector \<Rightarrow> error + (nat \<times> Matrix2D \<times> Vector)"
where
  "fill_rows alphas S [] (counter, mx, bd) = Inr (counter, mx, bd)"
| "fill_rows alphas S (index # rest) (counter, mx, bd) =
     (if index < length alphas then
        (if counter < length mx then
           (case set_head S (alphas ! index) (mx ! counter) of
              Inl e \<Rightarrow> Inl e
            | Inr r1 \<Rightarrow>
                (case set_coeff Buf_m r1 S (- 1) of
                   Inl e \<Rightarrow> Inl e
                 | Inr r2 \<Rightarrow> fill_rows alphas S rest (Suc counter, mx[counter := r2], bd)))
         else Inl (OutOfRange Buf_m))
      else
        (case set_coeff Buf_boundary bd (index - length alphas) 0 of
           Inl e \<Rightarrow> Inl e
         | Inr bd' \<Rightarrow> fill_rows alphas S rest (counter, mx, bd')))"

text \<open>The acceptance test: every point coordinate lies in \<open>[0, 1]\<close>.\<close>

definition in_unit :: "real \<Rightarrow> bool" where
  "in_unit x = (0 \<le> x \<and> x \<le> 1)"

text \<open>
  The body of the \<^verbatim>\<open>while\<close> loop up to the acceptance test, for the current subset
  \<open>sub\<close> and the position \<open>lst\<close> (\<^verbatim>\<open>last\<close>) returned by the previous advance.
\<close>

definition solve_subset ::
  "solver \<Rightarrow> Vector list \<Rightarrow> nat \<Rightarrow> nat list \<Rightarrow> nat \<Rightarrow> workspace \<Rightarrow> error + workspace"
where
  "solve_subset solve alphas S sub lst w =
     (let bd0 = replicate S 1 @ drop S (w_boundary w) in
      case fill_rows alphas S (drop lst sub) (1, w_m w, bd0) of
        Inl e \<Rightarrow> Inl e
      | Inr (counter, m1, bd1) \<Rightarrow>
          (case set_coeff Buf_m m1 counter bd1 of
             Inl e \<Rightarrow> Inl e
           | Inr m2 \<Rightarrow>
               (case set_coeff Buf_b (w_b w) counter 1 of
                  Inl e \<Rightarrow> Inl e
                | Inr b1 \<Rightarrow>
                    (let counter' = Suc counter;
                         lhs = take counter' m2;
                         rhs = take counter' b1;
                         res = solve lhs rhs;
                         call = \<lparr>sc_subset = sub, sc_lhs = lhs, sc_rhs = rhs, sc_solution = res\<rparr>
                     in case set_coeff Buf_b b1 (counter' - 1) 0 of
                          Inl e \<Rightarrow> Inl e
                        | Inr b2 \<Rightarrow>
                            (case vec_head S res of
                               Inl e \<Rightarrow> Inl e
                             | Inr pt \<Rightarrow>
                                 (if list_all in_unit pt then
                                    (if S < length res then
                                       Inr \<lparr>w_m = m2, w_boundary = bd1, w_b = b2, w_result = res,
                                            w_vertices = w_vertices w @ [(pt, res ! S)],
                                            w_solved = w_solved w @ [call]\<rparr>
                                     else Inl (OutOfRange Buf_result))
                                  else
                                    Inr \<lparr>w_m = m2, w_boundary = bd1, w_b = b2, w_result = res,
                                         w_vertices = w_vertices w,
                                         w_solved = w_solved w @ [call]\<rparr>))))))"

text \<open>
  The \<^verbatim>\<open>while (enumerator.isValid())\<close> loop for one new hyperplane. After the body the
  enumerator advances; the loop is left when the index at the first changed position is not
  below \<^verbatim>\<open>alphasSize\<close>.
\<close>

function while_valid ::
  "solver \<Rightarrow> Vector list \<Rightarrow> nat \<Rightarrow> SubsetEnumerator \<Rightarrow> nat \<Rightarrow> workspace
     \<Rightarrow> error + (SubsetEnumerator \<times> workspace)"
where
  "while_valid solve alphas S en lst w =
     (if isValid en then
        (case solve_subset solve alphas S (current en) lst w of
           Inl e \<Rightarrow> Inl e
         | Inr w' \<Rightarrow>
             (case subset_at (snd (advance en)) (fst (advance en)) of
                Inl e \<Rightarrow> Inl e
              | Inr index \<Rightarrow>
                  if index \<ge> length alphas then Inr (snd (advance en), w')
                  else while_valid solve alphas S (snd (advance en)) (fst (advance en)) w'))
      else Inr (en, w))"
  by pat_completeness auto
termination
  by (relation "measure (\<lambda>(solve, alphas, S, en, lst, w). length (pending en))")
     (auto simp: isValid_def advance_def split: list.splits)

declare while_valid.simps [simp del]

text \<open>The \<^verbatim>\<open>for\<close> loop over the new hyperplanes.\<close>

fun for_new ::
  "solver \<Rightarrow> Vector list \<Rightarrow> nat \<Rightarrow> SubsetEnumerator \<Rightarrow> workspace \<Rightarrow> Vector list
     \<Rightarrow> error + workspace"
where
  "for_new solve alphas S en w [] = Inr w"
| "for_new solve alphas S en w (newV # rest) =
     (case set_head S newV (w_m w ! 0) of
        Inl e \<Rightarrow> Inl e
      | Inr r0 \<Rightarrow>
          (case while_valid solve alphas S (reset en) 0 (w\<lparr>w_m := (w_m w)[0 := r0]\<rparr>) of
             Inl e \<Rightarrow> Inl e
           | Inr (en', w') \<Rightarrow> for_new solve alphas S en' w' rest))"

text \<open>
  The storage of a freshly constructed Eigen matrix or vector is not initialised: its
  content is the parameter \<open>junk\<close>, one arbitrary value for every cell (rows \<open>0..S\<close> are
  those of \<^verbatim>\<open>m\<close>, row \<open>S + 1\<close> is \<^verbatim>\<open>boundary\<close>, row \<open>S + 2\<close> is \<^verbatim>\<open>result\<close>).
\<close>

definition initial_workspace :: "(nat \<Rightarrow> nat \<Rightarrow> real) \<Rightarrow> nat \<Rightarrow> workspace" where
  "initial_workspace junk S =
     (let m0 = map (\<lambda>i. map (junk i) [0..<S + 1]) [0..<S + 1];
          boundary0 = map (junk (S + 1)) [0..<S + 1];
          result0 = map (junk (S + 2)) [0..<S + 1]
      in \<lparr>w_m = m0[0 := (m0 ! 0)[S := - 1]],
          w_boundary = boundary0[S := 0],
          w_b = replicate (S + 1) 0,
          w_result = result0,
          w_vertices = [],
          w_solved = []\<rparr>)"

text \<open>
  \<^verbatim>\<open>findVerticesNaive\<close>, returning the vertices together with the calls of the linear
  solver that were made.
\<close>

definition findVerticesNaive_run ::
  "solver \<Rightarrow> (nat \<Rightarrow> nat \<Rightarrow> real) \<Rightarrow> Vector list \<Rightarrow> Vector list
     \<Rightarrow> error + ((Vector \<times> real) list \<times> solve_call list)"
where
  "findVerticesNaive_run solve junk news alphas =
     (let alphasSize = length alphas in
      if alphasSize = 0 then Inr ([], [])
      else
        (let S = length (hd alphas);
             enumerator = makeSubsetEnumerator (size_t_pred S) 0 (alphasSize + S)
         in case for_new solve alphas S enumerator (initial_workspace junk S) news of
              Inl e \<Rightarrow> Inl e
            | Inr w \<Rightarrow> Inr (w_vertices w, w_solved w)))"

definition findVerticesNaive ::
  "solver \<Rightarrow> (nat \<Rightarrow> nat \<Rightarrow> real) \<Rightarrow> Vector list \<Rightarrow> Vector list
     \<Rightarrow> error + (Vector \<times> real) list"
where
  "findVerticesNaive solve junk news alphas =
     (case findVerticesNaive_run solve junk news alphas of
        Inl e \<Rightarrow> Inl e
      | Inr (vs, calls) \<Rightarrow> Inr vs)"

section \<open>The optimistic value\<close>

text \<open>
  Modelled from the spec: the class \<^verbatim>\<open>LP\<close> of \<^verbatim>\<open>AIToolbox/LP.hpp\<close> is not among
  the sources. Section 6 of the specification describes it as constructed for a number of
  variables, with: an objective row and direction; a variable declared unbounded or left
  default-bounded; constraint rows appended with a comparison kind and a right-hand side;
  and a solve that reports success, the optimal assignment and the optimal objective value.
  The member \<^verbatim>\<open>row\<close> is the buffer from which the objective and the constraints are read.
\<close>

datatype Constraint = LessEqual | Equal | GreaterEqual

text \<open>Modelled from the spec: the state of a linear program under construction.\<close>

record LP =
  lp_vars :: nat
  row :: Vector
  lp_objective :: Vector
  lp_maximize :: bool
  lp_unbounded :: "bool list"
  lp_rows :: "(Vector \<times> Constraint \<times> real) list"

text \<open>
  Modelled from the spec: the constructor for a number of variables, each default-bounded.
\<close>

definition makeLP :: "nat \<Rightarrow> LP" where
  "makeLP S =
     \<lparr>lp_vars = S, row = replicate S 0, lp_objective = replicate S 0, lp_maximize = False,
      lp_unbounded = replicate S False, lp_rows = []\<rparr>"

text \<open>Modelled from the spec: the objective is the current row, with a direction.\<close>

definition setObjective :: "bool \<Rightarrow> LP \<Rightarrow> LP" where
  "setObjective mx lp = lp\<lparr>lp_objective := row lp, lp_maximize := mx\<rparr>"

text \<open>Modelled from the spec: a variable is declared unbounded.\<close>

definition setUnbounded :: "nat \<Rightarrow> LP \<Rightarrow> LP" where
  "setUnbounded s lp = lp\<lparr>lp_unbounded := (lp_unbounded lp)[s := True]\<rparr>"

text \<open>
  Modelled from the spec: the current row is appended as a constraint, with a comparison
  kind and a right-hand side.
\<close>

definition pushRow :: "Constraint \<Rightarrow> real \<Rightarrow> LP \<Rightarrow> LP" where
  "pushRow c v lp = lp\<lparr>lp_rows := lp_rows lp @ [(row lp, c, v)]\<rparr>"

text \<open>
  The solver behind \<^verbatim>\<open>lp.solve\<close> is external: a parameter that maps the program to
  \<open>None\<close> (no solution: infeasible or unbounded) or to the optimal assignment and the
  optimal objective value.
\<close>

type_synonym lp_solver = "LP \<Rightarrow> (Vector \<times> real) option"

text \<open>A solver that reports failure on every program.\<close>

definition no_solution :: lp_solver where
  "no_solution lp = None"

text \<open>The program that \<^verbatim>\<open>computeOptimisticValue\<close> hands to the solver.\<close>

definition build_lp :: "Vector \<Rightarrow> (Vector \<times> real) list \<Rightarrow> LP" where
  "build_lp p pvs =
     (let S = length p;
          lp0 = makeLP S;
          lp1 = setObjective True (lp0\<lparr>row := p\<rparr>);
          lp2 = fold setUnbounded [0..<S] lp1
      in fold (\<lambda>pv lp. pushRow LessEqual (snd pv) (lp\<lparr>row := fst pv\<rparr>)) pvs lp2)"

text \<open>
  \<^verbatim>\<open>computeOptimisticValue\<close>, returning the value together with the programs handed to
  the solver. The only check of the solver's answer is \<^verbatim>\<open>assert(solution)\<close>:
  \<^item> in a build that keeps assertions (\<open>ndebug = False\<close>), a failed assertion ends the call
    with \<open>AssertionFailed\<close>;
  \<^item> in a build with \<^verbatim>\<open>NDEBUG\<close> (\<open>ndebug = True\<close>) the assertion is compiled out, and
    \<^verbatim>\<open>return retval\<close> returns whatever \<^verbatim>\<open>retval\<close> holds after the failed solve. The
    variable is declared without an initial value, so this content is the parameter
    \<open>retval0\<close>, an arbitrary number.
\<close>

definition computeOptimisticValue_run ::
  "bool \<Rightarrow> real \<Rightarrow> lp_solver \<Rightarrow> Vector \<Rightarrow> (Vector \<times> real) list \<Rightarrow> (error + real) \<times> LP list"
where
  "computeOptimisticValue_run ndebug retval0 lp_solve p pvs =
     (let vertexNumber = length pvs in
      if vertexNumber = 0 then (Inr 0, [])
      else
        (let lp = build_lp p pvs in
         case lp_solve lp of
           None \<Rightarrow> (if ndebug then Inr retval0 else Inl AssertionFailed, [lp])
         | Some (h, retval) \<Rightarrow> (Inr retval, [lp])))"

definition computeOptimisticValue ::
  "bool \<Rightarrow> real \<Rightarrow> lp_solver \<Rightarrow> Vector \<Rightarrow> (Vector \<times> real) list \<Rightarrow> error + real"
where
  "computeOptimisticValue ndebug retval0 lp_solve p pvs =
     fst (computeOptimisticValue_run ndebug retval0 lp_solve p pvs)"

subsection \<open>What a linear program means\<close>

text \<open>
  Modelled from the spec: the meaning of a program (objective \<open>p \<cdot> h\<close>, constraints
  \<open>v \<cdot> h \<le> value\<close>), used to say when a solver's answer is right. An assignment is
  feasible when it has one value per variable, satisfies every constraint row, and is
  non-negative at every variable that was not declared unbounded (the default bound of LP
  solvers; \<^verbatim>\<open>computeOptimisticValue\<close> declares every variable unbounded).
\<close>

definition dot :: "Vector \<Rightarrow> Vector \<Rightarrow> real" where
  "dot a h = sum_list (map2 (*) a h)"

fun holds :: "Constraint \<Rightarrow> real \<Rightarrow> real \<Rightarrow> bool" where
  "holds LessEqual l r = (l \<le> r)"
| "holds Equal l r = (l = r)"
| "holds GreaterEqual l r = (l \<ge> r)"

definition lp_feasible :: "LP \<Rightarrow> Vector \<Rightarrow> bool" where
  "lp_feasible lp h =
     (length h = lp_vars lp \<and>
      list_all (\<lambda>s. lp_unbounded lp ! s \<or> 0 \<le> h ! s) [0..<lp_vars lp] \<and>
      list_all (\<lambda>(a, c, v). holds c (dot a h) v) (lp_rows lp))"

definition lp_optimal :: "LP \<Rightarrow> Vector \<Rightarrow> real \<Rightarrow> bool" where
  "lp_optimal lp h v =
     (lp_feasible lp h \<and> dot (lp_objective lp) h = v \<and>
      (\<forall>h'. lp_feasible lp h' \<longrightarrow>
         (if lp_maximize lp then dot (lp_objective lp) h' \<le> v
          else v \<le> dot (lp_objective lp) h')))"

text \<open>
  The solver is right on a program: it returns an optimum when it returns one, and it
  fails only when the program has none.
\<close>

definition lp_solver_exact :: "lp_solver \<Rightarrow> LP \<Rightarrow> bool" where
  "lp_solver_exact lp_solve lp =
     (case lp_solve lp of
        Some (h, v) \<Rightarrow> lp_optimal lp h v
      | None \<Rightarrow> \<not> (\<exists>h v. lp_optimal lp h v))"

section \<open>Notions used in the statements\<close>

subsection \<open>Concrete solvers\<close>

text \<open>
  The product of a matrix and a vector, and what it means that the linear solver solved
  the system it was given: the vector returned has one coefficient per column and
  satisfies every equation.
\<close>

definition mat_vec :: "Matrix2D \<Rightarrow> Vector \<Rightarrow> Vector" where
  "mat_vec A x = map (\<lambda>r. dot r x) A"

definition solves :: "solver \<Rightarrow> Matrix2D \<Rightarrow> Vector \<Rightarrow> bool" where
  "solves solve A rhs =
     (list_all (\<lambda>r. length r = length (solve A rhs)) A \<and> mat_vec A (solve A rhs) = rhs)"

text \<open>
  Cramer's rule for three equations in three unknowns: an exact solver for the regular
  systems of that size, which are those of the dimension \<open>S = 2\<close>.
\<close>

fun det3 :: "Matrix2D \<Rightarrow> real" where
  "det3 [[a, b, c], [d, e, f], [g, h, i]] =
     a * (e * i - f * h) - b * (d * i - f * g) + c * (d * h - e * g)"
| "det3 _ = 0"

definition replace_col :: "Matrix2D \<Rightarrow> nat \<Rightarrow> Vector \<Rightarrow> Matrix2D" where
  "replace_col A j v = map2 (\<lambda>r x. r[j := x]) A v"

definition cramer3 :: solver where
  "cramer3 A rhs =
     (let d = det3 A in
      if d = 0 then [0, 0, 0]
      else map (\<lambda>j. det3 (replace_col A j rhs) / d) [0, 1, 2])"

text \<open>A solver that answers the zero vector, with one coefficient per column.\<close>

definition zero_solver :: solver where
  "zero_solver A rhs = replicate (length (hd A)) 0"

text \<open>Storage that happens to be zero before it is first written.\<close>

definition no_junk :: "nat \<Rightarrow> nat \<Rightarrow> real" where
  "no_junk i j = 0"

text \<open>
  A solver for the programs \<open>maximise h subject to h \<le> c\<^sub>1, ..., h \<le> c\<^sub>n\<close> in one
  unbounded variable: the optimum is the least of the bounds.
\<close>

definition bound_solver :: lp_solver where
  "bound_solver lp =
     (case map (\<lambda>r. snd (snd r)) (lp_rows lp) of
        [] \<Rightarrow> None
      | c # cs \<Rightarrow> Some ([fold min cs c], fold min cs c))"

text \<open>The program of the scenario \<open>p = (0.5, 0.5)\<close> with the pairs \<open>((1,0), 2)\<close>, \<open>((0,1), 4)\<close>.\<close>

definition lp_scenario :: LP where
  "lp_scenario =
     \<lparr>lp_vars = 2, row = [0, 1], lp_objective = [1 / 2, 1 / 2], lp_maximize = True,
      lp_unbounded = [True, True],
      lp_rows = [([1, 0], LessEqual, 2), ([0, 1], LessEqual, 4)]\<rparr>"

definition scenario_solver :: lp_solver where
  "scenario_solver lp = Some ([2, 4], 3)"

subsection \<open>Reading the outcome of a run\<close>

text \<open>The subsets for which a system was solved, in order.\<close>

definition solved_subsets ::
  "error + ((Vector \<times> real) list \<times> solve_call list) \<Rightarrow> nat list list"
where
  "solved_subsets r = (case r of Inl e \<Rightarrow> [] | Inr (vs, calls) \<Rightarrow> map sc_subset calls)"

text \<open>A subset contains the index of an old hyperplane.\<close>

definition has_old :: "nat \<Rightarrow> nat list \<Rightarrow> bool" where
  "has_old alphasSize s = list_ex (\<lambda>i. i < alphasSize) s"

text \<open>The call returned a vertex at the point \<open>pt\<close>.\<close>

definition returns_point :: "error + (Vector \<times> real) list \<Rightarrow> Vector \<Rightarrow> bool" where
  "returns_point r pt =
     (case r of Inl e \<Rightarrow> False | Inr vs \<Rightarrow> list_ex (\<lambda>v. fst v = pt) vs)"

text \<open>
  The vertices that a sequence of solver calls contributes: of every solution that passes
  the acceptance test, the point (its first \<open>S\<close> coefficients) and the value (the
  coefficient after them); nothing of the others.
\<close>

definition accepted :: "nat \<Rightarrow> solve_call list \<Rightarrow> (Vector \<times> real) list" where
  "accepted S calls =
     map (\<lambda>c. (take S (sc_solution c), sc_solution c ! S))
       (filter (\<lambda>c. list_all in_unit (take S (sc_solution c))) calls)"

subsection \<open>Invariants of the loops\<close>

text \<open>The output is what the solver calls made so far contribute.\<close>

definition log_ok :: "nat \<Rightarrow> workspace \<Rightarrow> bool" where
  "log_ok S w =
     (w_vertices w = accepted S (w_solved w) \<and>
      list_all (\<lambda>c. S \<le> length (sc_solution c)) (w_solved w))"

text \<open>The buffers keep the sizes they were allocated with.\<close>

definition rows_ok :: "nat \<Rightarrow> Matrix2D \<Rightarrow> bool" where
  "rows_ok S mx = (length mx = S + 1 \<and> list_all (\<lambda>r. length r = S + 1) mx)"

definition shape :: "nat \<Rightarrow> workspace \<Rightarrow> bool" where
  "shape S w =
     (length (w_m w) = S + 1 \<and> list_all (\<lambda>r. length r = S + 1) (w_m w) \<and>
      length (w_boundary w) = S + 1 \<and> length (w_b w) = S + 1)"

text \<open>
  A system handed to the solver lies within the \<open>S + 1\<close> rows of \<^verbatim>\<open>m\<close> and the
  \<open>S + 1\<close> entries of \<^verbatim>\<open>b\<close>: its number of rows is the final value of \<^verbatim>\<open>counter\<close>.
\<close>

definition call_in_range :: "nat \<Rightarrow> solve_call \<Rightarrow> bool" where
  "call_in_range S c = (length (sc_lhs c) \<le> S + 1 \<and> length (sc_rhs c) = length (sc_lhs c))"

text \<open>An access to a row of \<^verbatim>\<open>m\<close> or an entry of \<^verbatim>\<open>b\<close> that is out of range.\<close>

definition row_error :: "error \<Rightarrow> bool" where
  "row_error e = (e = OutOfRange Buf_m \<or> e = OutOfRange Buf_b)"

text \<open>Every subset the enumerator still holds has the size it was constructed for.\<close>

definition subsets_sized :: "nat \<Rightarrow> SubsetEnumerator \<Rightarrow> bool" where
  "subsets_sized k en = (elementsN en = k \<and> list_all (\<lambda>s. length s = k) (pending en))"

text \<open>
  Two states of the inner \<^verbatim>\<open>for\<close> loop that agree on the counter, on \<^verbatim>\<open>boundary\<close>
  and on the rows of \<^verbatim>\<open>m\<close> written so far.
\<close>

definition same_rows ::
  "nat \<Rightarrow> nat \<Rightarrow> nat \<Rightarrow> nat \<times> Matrix2D \<times> Vector \<Rightarrow> nat \<times> Matrix2D \<times> Vector \<Rightarrow> bool"
where
  "same_rows S n c t t' =
     (fst t = fst t' \<and> snd (snd t) = snd (snd t') \<and> c \<le> fst t \<and>
      take (fst t) (fst (snd t)) = take (fst t) (fst (snd t')) \<and>
      rows_ok S (fst (snd t)) \<and> rows_ok S (fst (snd t')) \<and> length (snd (snd t)) = n)"

text \<open>
  Two workspaces that agree on everything the function reads before it writes it: the
  last coefficient of row 0 of \<^verbatim>\<open>m\<close> and of \<^verbatim>\<open>boundary\<close>, the vector \<^verbatim>\<open>b\<close>, and
  the output so far. Inside the \<^verbatim>\<open>while\<close> loop the whole of row 0 agrees as well.
\<close>

definition same_visible :: "nat \<Rightarrow> workspace \<Rightarrow> workspace \<Rightarrow> bool" where
  "same_visible S w w' =
     (shape S w \<and> shape S w' \<and> drop S (w_m w ! 0) = drop S (w_m w' ! 0) \<and>
      drop S (w_boundary w) = drop S (w_boundary w') \<and> w_b w = w_b w' \<and>
      w_vertices w = w_vertices w' \<and> w_solved w = w_solved w')"

definition same_system :: "nat \<Rightarrow> workspace \<Rightarrow> workspace \<Rightarrow> bool" where
  "same_system S w w' = (same_visible S w w' \<and> w_m w ! 0 = w_m w' ! 0)"

text \<open>The end of the loop body, from the acceptance test on.\<close>

definition solve_subset_tail :: "nat \<Rightarrow> Vector \<Rightarrow> workspace \<Rightarrow> error + workspace" where
  "solve_subset_tail S res w1 =
     (if S \<le> length res then
        if list_all in_unit (take S res) then
          if S < length res
          then Inr (w1\<lparr>w_vertices := w_vertices w1 @ [(take S res, res ! S)]\<rparr>)
          else Inl (OutOfRange Buf_result)
        else Inr w1
      else Inl (OutOfRange Buf_result))"

section \<open>Properties of the empty inputs\<close>

text \<open>
  C7: with an empty range of old hyperplanes, \<^verbatim>\<open>findVerticesNaive\<close> returns the empty
  list for every sequence of new hyperplanes, and makes no call of the linear solver (the
  enumerator is not even constructed).
\<close>

theorem findVerticesNaive_no_alphas:
  "findVerticesNaive solve junk news [] = Inr [] \<and>
   findVerticesNaive_run solve junk news [] = Inr ([], [])"
  by (simp add: findVerticesNaive_def findVerticesNaive_run_def)

text \<open>
  C8: with an empty sequence of known pairs, \<^verbatim>\<open>computeOptimisticValue\<close> returns exactly
  0 for every query point, and no linear program is handed to the solver.
\<close>

theorem computeOptimisticValue_no_pairs:
  "computeOptimisticValue ndebug retval0 lp_solve p [] = Inr 0 \<and>
   computeOptimisticValue_run ndebug retval0 lp_solve p [] = (Inr 0, [])"
  by (simp add: computeOptimisticValue_def computeOptimisticValue_run_def)

section \<open>Failure of the linear program\<close>

text \<open>
  What a call does when the solver reports no solution for the program of a non-empty
  sequence of pairs: the failed assertion in a build that keeps assertions, and the content
  of \<^verbatim>\<open>retval\<close> as if it were a bound in a build with \<^verbatim>\<open>NDEBUG\<close>.
\<close>

lemma computeOptimisticValue_no_solution:
  assumes "pvs \<noteq> []" and "lp_solve (build_lp p pvs) = None"
  shows "computeOptimisticValue ndebug retval0 lp_solve p pvs =
           (if ndebug then Inr retval0 else Inl AssertionFailed)"
  using assms by (simp add: computeOptimisticValue_def computeOptimisticValue_run_def)

text \<open>
  The program for \<open>p = (0.5, 0.5)\<close> and the single pair \<open>((1, 0), 2)\<close> maximises
  \<open>0.5 h0 + 0.5 h1\<close> subject to \<open>h0 \<le> 2\<close>: it is unbounded, since \<open>h1\<close> may grow without
  limit, and a solver that is right on it reports no solution.
\<close>

lemma build_lp_one_pair:
  "build_lp [1 / 2, 1 / 2] [([1, 0], 2)] =
     \<lparr>lp_vars = 2, row = [1, 0], lp_objective = [1 / 2, 1 / 2], lp_maximize = True,
      lp_unbounded = [True, True], lp_rows = [([1, 0], LessEqual, 2)]\<rparr>"
  by (simp add: build_lp_def makeLP_def setObjective_def setUnbounded_def pushRow_def
      upt_rec numeral_2_eq_2)

lemma feasible_one_pair:
  "lp_feasible (build_lp [1 / 2, 1 / 2] [([1, 0], 2)]) h \<longleftrightarrow> (\<exists>x y. h = [x, y] \<and> x \<le> 2)"
  unfolding build_lp_one_pair
  apply (cases h; simp add: lp_feasible_def dot_def)
  subgoal for a t
    apply (cases t; simp)
    subgoal for b u
      by (cases u; simp add: upt_rec numeral_2_eq_2)
    done
  done

lemma unbounded_one_pair: "\<not> (\<exists>h v. lp_optimal (build_lp [1 / 2, 1 / 2] [([1, 0], 2)]) h v)"
proof
  assume "\<exists>h v. lp_optimal (build_lp [1 / 2, 1 / 2] [([1, 0], 2)]) h v"
  then obtain h v where o: "lp_optimal (build_lp [1 / 2, 1 / 2] [([1, 0], 2)]) h v" by blast
  then obtain x y where h: "h = [x, y]" "x \<le> 2"
    by (auto simp: lp_optimal_def feasible_one_pair)
  from o h have v: "v = x / 2 + y / 2"
    by (simp add: lp_optimal_def build_lp_one_pair dot_def)
  have "lp_feasible (build_lp [1 / 2, 1 / 2] [([1, 0], 2)]) [x, y + 2]"
    using h by (simp add: feasible_one_pair)
  with o have "dot (lp_objective (build_lp [1 / 2, 1 / 2] [([1, 0], 2)])) [x, y + 2] \<le> v"
    unfolding lp_optimal_def by (simp add: build_lp_one_pair)
  then have "x / 2 + (y + 2) / 2 \<le> v" by (simp add: build_lp_one_pair dot_def)
  with v show False by simp
qed

text \<open>
  C2: for \<open>p = (0.5, 0.5)\<close> and the single pair \<open>((1, 0), 2)\<close> the solver rightly reports
  no solution. In a build with \<^verbatim>\<open>NDEBUG\<close> \<^verbatim>\<open>computeOptimisticValue\<close> then returns the
  content of the uninitialised \<^verbatim>\<open>retval\<close> as the bound, with no error; only a build that
  keeps assertions ends the call in the failed assertion.
\<close>

theorem computeOptimisticValue_failure_silent:
  "lp_solver_exact no_solution (build_lp [1 / 2, 1 / 2] [([1, 0], 2)]) \<and>
   computeOptimisticValue True retval0 no_solution [1 / 2, 1 / 2] [([1, 0], 2)] = Inr retval0 \<and>
   computeOptimisticValue False retval0 no_solution [1 / 2, 1 / 2] [([1, 0], 2)]
     = Inl AssertionFailed"
proof -
  have "lp_solver_exact no_solution (build_lp [1 / 2, 1 / 2] [([1, 0], 2)])"
    using unbounded_one_pair by (simp add: lp_solver_exact_def no_solution_def)
  moreover have "no_solution (build_lp [1 / 2, 1 / 2] [([1, 0], 2)]) = None"
    by (simp add: no_solution_def)
  ultimately show ?thesis
    by (simp add: computeOptimisticValue_no_solution)
qed

section \<open>The bound computed from the linear program\<close>

subsection \<open>The program that is built\<close>

lemma build_lp_snoc:
  "build_lp p (K @ [pv]) = pushRow LessEqual (snd pv) ((build_lp p K)\<lparr>row := fst pv\<rparr>)"
  by (simp add: build_lp_def Let_def)

lemma feasible_snoc:
  "lp_feasible (build_lp p (K @ [pv])) h \<Longrightarrow> lp_feasible (build_lp p K) h"
  by (simp add: build_lp_snoc lp_feasible_def pushRow_def)

lemma build_lp_objective: "lp_objective (build_lp p K) = p \<and> lp_maximize (build_lp p K)"
proof (induction K rule: rev_induct)
  case Nil
  have "\<And>lp xs. lp_objective (fold setUnbounded xs lp) = lp_objective lp \<and> lp_maximize (fold setUnbounded xs lp) = lp_maximize lp"
    subgoal for lp xs by (induction xs arbitrary: lp) (simp_all add: setUnbounded_def)
    done
  then show ?case by (simp add: build_lp_def setObjective_def Let_def)
next
  case (snoc x xs)
  then show ?case by (simp add: build_lp_snoc pushRow_def)
qed

lemma build_lp_scenario:
  "build_lp [1 / 2, 1 / 2] [([1, 0], 2), ([0, 1], 4)] = lp_scenario"
  by (simp add: build_lp_def makeLP_def setObjective_def setUnbounded_def pushRow_def
      lp_scenario_def upt_rec numeral_2_eq_2)

lemma feasible_scenario:
  "lp_feasible lp_scenario h \<longleftrightarrow> (\<exists>x y. h = [x, y] \<and> x \<le> 2 \<and> y \<le> 4)"
  apply (cases h; simp add: lp_feasible_def lp_scenario_def dot_def)
  subgoal for a t
    apply (cases t; simp)
    subgoal for b u
      by (cases u; simp add: upt_rec numeral_2_eq_2)
    done
  done

lemma optimal_scenario:
  "lp_optimal lp_scenario h v \<longleftrightarrow> h = [2, 4] \<and> v = 3"
proof
  assume o: "lp_optimal lp_scenario h v"
  then obtain x y where h: "h = [x, y]" "x \<le> 2" "y \<le> 4"
    by (auto simp: lp_optimal_def feasible_scenario)
  have v: "v = x / 2 + y / 2"
    using o h by (simp add: lp_optimal_def lp_scenario_def dot_def)
  have "lp_feasible lp_scenario [2, 4]" by (simp add: feasible_scenario)
  then have "dot (lp_objective lp_scenario) [2, 4] \<le> v"
    using o by (simp add: lp_optimal_def lp_scenario_def)
  then have "3 \<le> v" by (simp add: lp_scenario_def dot_def)
  with v h show "h = [2, 4] \<and> v = 3" by simp
next
  assume "h = [2, 4] \<and> v = 3"
  then show "lp_optimal lp_scenario h v"
    by (auto simp: lp_optimal_def feasible_scenario) (auto simp: lp_scenario_def dot_def)
qed

lemma build_lp_one_bound:
  "build_lp [1] [([1], c)] =
     \<lparr>lp_vars = 1, row = [1], lp_objective = [1], lp_maximize = True, lp_unbounded = [True],
      lp_rows = [([1], LessEqual, c)]\<rparr>"
  by (simp add: build_lp_def makeLP_def setObjective_def setUnbounded_def pushRow_def)

lemma build_lp_two_bounds:
  "build_lp [1] [([1], c), ([1], d)] =
     \<lparr>lp_vars = 1, row = [1], lp_objective = [1], lp_maximize = True, lp_unbounded = [True],
      lp_rows = [([1], LessEqual, c), ([1], LessEqual, d)]\<rparr>"
  by (simp add: build_lp_def makeLP_def setObjective_def setUnbounded_def pushRow_def)

lemma bound_solver_one_exact: "lp_solver_exact bound_solver (build_lp [1] [([1], c)])"
proof -
  have "lp_feasible (build_lp [1] [([1], c)]) h \<longleftrightarrow> (\<exists>x. h = [x] \<and> x \<le> c)" for h
    by (cases h) (auto simp: build_lp_one_bound lp_feasible_def dot_def)
  then have "lp_optimal (build_lp [1] [([1], c)]) [c] c"
    unfolding lp_optimal_def by (auto simp: build_lp_one_bound dot_def)
  moreover have "bound_solver (build_lp [1] [([1], c)]) = Some ([c], c)"
    by (simp add: bound_solver_def build_lp_one_bound)
  ultimately show ?thesis by (simp add: lp_solver_exact_def)
qed

lemma bound_solver_two_exact: "lp_solver_exact bound_solver (build_lp [1] [([1], c), ([1], d)])"
proof -
  have "lp_feasible (build_lp [1] [([1], c), ([1], d)]) h \<longleftrightarrow> (\<exists>x. h = [x] \<and> x \<le> c \<and> x \<le> d)" for h
    by (cases h) (auto simp: build_lp_two_bounds lp_feasible_def dot_def)
  then have "lp_optimal (build_lp [1] [([1], c), ([1], d)]) [min d c] (min d c)"
    unfolding lp_optimal_def by (auto simp: build_lp_two_bounds dot_def)
  moreover have "bound_solver (build_lp [1] [([1], c), ([1], d)]) = Some ([min d c], min d c)"
    by (simp add: bound_solver_def build_lp_two_bounds)
  ultimately show ?thesis by (simp add: lp_solver_exact_def)
qed

subsection \<open>The scenario of two pairs\<close>

text \<open>
  C6: for \<open>p = (0.5, 0.5)\<close> and the pairs \<open>((1,0), 2)\<close>, \<open>((0,1), 4)\<close>,
  \<^verbatim>\<open>computeOptimisticValue\<close> hands to the solver the program that maximises
  \<open>0.5 h0 + 0.5 h1\<close> subject to \<open>h0 \<le> 2\<close> and \<open>h1 \<le> 4\<close> with both variables unbounded,
  and, with a solver that is right on this program, it returns 3.
\<close>

theorem computeOptimisticValue_scenario:
  assumes "lp_solver_exact lp_solve lp_scenario"
  shows "computeOptimisticValue_run ndebug retval0 lp_solve [1 / 2, 1 / 2]
           [([1, 0], 2), ([0, 1], 4)]
           = (Inr 3, [lp_scenario])"
proof (cases "lp_solve lp_scenario")
  case None
  with assms have "\<not> (\<exists>h v. lp_optimal lp_scenario h v)"
    by (simp add: lp_solver_exact_def)
  then show ?thesis using optimal_scenario by blast
next
  case (Some hv)
  obtain h v where hv: "hv = (h, v)" by (cases hv)
  with Some assms have "lp_optimal lp_scenario h v"
    by (simp add: lp_solver_exact_def)
  then have "v = 3" by (simp add: optimal_scenario)
  with Some hv show ?thesis
    by (simp add: computeOptimisticValue_run_def build_lp_scenario)
qed

theorem computeOptimisticValue_scenario_witness:
  "lp_solver_exact scenario_solver lp_scenario \<and>
   computeOptimisticValue_run True 0 scenario_solver [1 / 2, 1 / 2] [([1, 0], 2), ([0, 1], 4)]
     = (Inr 3, [lp_scenario])"
proof -
  have e: "lp_solver_exact scenario_solver lp_scenario"
    by (simp add: lp_solver_exact_def scenario_solver_def optimal_scenario)
  show ?thesis using e computeOptimisticValue_scenario [OF e, of True 0] by simp
qed

subsection \<open>Adding a pair\<close>

text \<open>
  C5, as amended: for a non-empty sequence \<open>K\<close> of known pairs and one more pair
  \<open>(v, c)\<close>, whenever both calls return a value and the solver is right on both programs,
  the value for \<open>K\<close> with \<open>(v, c)\<close> appended is at most the value for \<open>K\<close>. In a build
  with \<^verbatim>\<open>NDEBUG\<close> a returned value is the solver's only if the solver reported a solution.
\<close>

theorem computeOptimisticValue_monotone:
  assumes "K \<noteq> []"
    and "lp_solver_exact lp_solve (build_lp p K)"
    and "lp_solver_exact lp_solve (build_lp p (K @ [(v, c)]))"
    and "computeOptimisticValue ndebug retval0 lp_solve p K = Inr a"
    and "computeOptimisticValue ndebug retval0 lp_solve p (K @ [(v, c)]) = Inr a'"
    and "ndebug \<longrightarrow>
           lp_solve (build_lp p K) \<noteq> None \<and> lp_solve (build_lp p (K @ [(v, c)])) \<noteq> None"
  shows "a' \<le> a"
proof -
  from assms(1,4,6) obtain h where h: "lp_solve (build_lp p K) = Some (h, a)"
    by (auto simp: computeOptimisticValue_def computeOptimisticValue_run_def Let_def
        split: option.splits if_splits)
  from assms(5,6) obtain h' where h': "lp_solve (build_lp p (K @ [(v, c)])) = Some (h', a')"
    by (auto simp: computeOptimisticValue_def computeOptimisticValue_run_def Let_def
        split: option.splits if_splits)
  from h assms(2) have o: "lp_optimal (build_lp p K) h a" by (simp add: lp_solver_exact_def)
  from h' assms(3) have o': "lp_optimal (build_lp p (K @ [(v, c)])) h' a'"
    by (simp add: lp_solver_exact_def)
  from o' have "lp_feasible (build_lp p (K @ [(v, c)])) h'" by (simp add: lp_optimal_def)
  then have "lp_feasible (build_lp p K) h'" by (rule feasible_snoc)
  with o have "dot (lp_objective (build_lp p K)) h' \<le> a"
    by (simp add: lp_optimal_def build_lp_objective)
  moreover from o' have "dot (lp_objective (build_lp p (K @ [(v, c)]))) h' = a'"
    by (simp add: lp_optimal_def)
  ultimately show ?thesis by (simp add: build_lp_objective)
qed

theorem computeOptimisticValue_monotone_witness:
  "[([1], 5)] \<noteq> ([] :: (Vector \<times> real) list) \<and>
   lp_solver_exact bound_solver (build_lp [1] [([1], 5)]) \<and>
   lp_solver_exact bound_solver (build_lp [1] ([([1], 5)] @ [([1], 3)])) \<and>
   computeOptimisticValue True 0 bound_solver [1] [([1], 5)] = Inr 5 \<and>
   computeOptimisticValue True 0 bound_solver [1] ([([1], 5)] @ [([1], 3)]) = Inr 3 \<and>
   bound_solver (build_lp [1] [([1], 5)]) \<noteq> None \<and>
   bound_solver (build_lp [1] ([([1], 5)] @ [([1], 3)])) \<noteq> None \<and>
   (3 :: real) \<le> 5"
proof -
  have h1: "[([1], 5)] \<noteq> ([] :: (Vector \<times> real) list)" by simp
  have h2: "lp_solver_exact bound_solver (build_lp [1] [([1], 5)])"
    by (rule bound_solver_one_exact)
  have h3: "lp_solver_exact bound_solver (build_lp [1] ([([1], 5)] @ [([1], 3)]))"
    using bound_solver_two_exact [of 5 3] by simp
  have h4: "computeOptimisticValue True 0 bound_solver [1] [([1], 5)] = Inr 5"
    by (simp add: computeOptimisticValue_def computeOptimisticValue_run_def bound_solver_def
        build_lp_one_bound)
  have h5: "computeOptimisticValue True 0 bound_solver [1] ([([1], 5)] @ [([1], 3)]) = Inr 3"
    by (simp add: computeOptimisticValue_def computeOptimisticValue_run_def bound_solver_def
        build_lp_two_bounds)
  have h6: "bound_solver (build_lp [1] [([1], 5)]) \<noteq> None"
    by (simp add: bound_solver_def build_lp_one_bound)
  have h7: "bound_solver (build_lp [1] ([([1], 5)] @ [([1], 3)])) \<noteq> None"
    by (simp add: bound_solver_def build_lp_two_bounds)
  from h6 h7 have h8: "True \<longrightarrow>
      bound_solver (build_lp [1] [([1], 5)]) \<noteq> None \<and>
      bound_solver (build_lp [1] ([([1], 5)] @ [([1], 3)])) \<noteq> None"
    by blast
  from computeOptimisticValue_monotone [OF h1 h2 h3 h4 h5 h8] h1 h2 h3 h4 h5 h6 h7
  show ?thesis by blast
qed

text \<open>
  C5 fails when \<open>K\<close> is empty: the value for no pair is the constant 0 of the early
  return, and the value for the single pair \<open>((1), 5)\<close> at \<open>p = (1)\<close> is 5.
\<close>

theorem computeOptimisticValue_not_monotone_from_empty:
  "computeOptimisticValue False 0 bound_solver [1] [] = Inr 0 \<and>
   computeOptimisticValue False 0 bound_solver [1] ([] @ [([1], 5)]) = Inr 5 \<and>
   lp_solver_exact bound_solver (build_lp [1] ([] @ [([1], 5)])) \<and>
   \<not> ((5 :: real) \<le> 0)"
  using bound_solver_one_exact [of 5]
  by (simp add: computeOptimisticValue_def computeOptimisticValue_run_def bound_solver_def
      build_lp_one_bound)

section \<open>Vertex enumeration: two runs\<close>

text \<open>
  The run for the new hyperplane \<open>(3, 1)\<close> against the old hyperplane \<open>(1, 2)\<close>
  (\<open>S = 2\<close>), and the run for one new and one old hyperplane of dimension \<open>S = 3\<close>.
\<close>

lemmas run_defs =
  findVerticesNaive_run_def Let_def size_t_pred_def makeSubsetEnumerator_def reset_def
  initial_workspace_def set_head_def while_valid.simps isValid_def current_def
  solve_subset_def set_coeff_def vec_head_def in_unit_def advance_def subset_at_def upt_rec

lemma cramer3_scenario:
  "cramer3 [[3, 1, - 1], [1, 2, - 1], [1, 1, 0]] [0, 0, 1] = [1 / 3, 2 / 3, 5 / 3]"
  by (simp add: cramer3_def replace_col_def)

lemma solves_cramer3_scenario:
  "solves cramer3 [[3, 1, - 1], [1, 2, - 1], [1, 1, 0]] [0, 0, 1]"
  by (simp add: solves_def cramer3_scenario mat_vec_def dot_def)

lemma run_scenario:
  assumes "solve [[3, 1, - 1], [1, 2, - 1], [1, 1, 0]] [0, 0, 1] = [1 / 3, 2 / 3, 5 / 3]"
  shows "findVerticesNaive_run solve junk [[3, 1]] [[1, 2]] =
     Inr ([([1 / 3, 2 / 3], 5 / 3)],
          [\<lparr>sc_subset = [0], sc_lhs = [[3, 1, - 1], [1, 2, - 1], [1, 1, 0]], sc_rhs = [0, 0, 1],
            sc_solution = [1 / 3, 2 / 3, 5 / 3]\<rparr>])"
  using assms by (simp add: run_defs)

lemma solves_scenario_unique:
  assumes "solves solve [[3, 1, - 1], [1, 2, - 1], [1, 1, 0]] [0, 0, 1]"
  shows "solve [[3, 1, - 1], [1, 2, - 1], [1, 1, 0]] [0, 0, 1] = [1 / 3, 2 / 3, 5 / 3]"
proof -
  let ?s = "solve [[3, 1, - 1], [1, 2, - 1], [1, 1, 0]] [0, 0, 1]"
  from assms have "length ?s = 3" by (simp add: solves_def)
  then obtain x y v where s: "?s = [x, y, v]"
    by (auto simp: length_Suc_conv numeral_3_eq_3)
  from assms have "3 * x + y - v = 0" "x + 2 * y - v = 0" "x + y = 1"
    unfolding solves_def s by (simp_all add: mat_vec_def dot_def)
  then have "x = 1 / 3" "y = 2 / 3" "v = 5 / 3" by simp_all
  with s show ?thesis by simp
qed

lemma run_three:
  "findVerticesNaive_run zero_solver no_junk [[0, 0, 0]] [[1, 2, 3]] =
     Inr ([([0, 0, 0], 0)],
          [\<lparr>sc_subset = [0, 1], sc_lhs = [[0, 0, 0, - 1], [1, 2, 3, - 1], [0, 1, 1, 0]],
            sc_rhs = [0, 0, 1], sc_solution = [0, 0, 0, 0]\<rparr>])"
  by (simp add: run_defs zero_solver_def no_junk_def numeral_2_eq_2 numeral_3_eq_3)

section \<open>Accepted vertices\<close>

lemma accepted_append: "accepted S (xs @ ys) = accepted S xs @ accepted S ys"
  by (simp add: accepted_def)

lemma solve_subset_log_ok:
  assumes "solve_subset solve alphas S sub lst w = Inr w'" and "log_ok S w"
  shows "log_ok S w'"
  using assms
  by (auto simp: solve_subset_def Let_def vec_head_def accepted_def log_ok_def
      split: sum.splits prod.splits if_splits)

lemma while_valid_log_ok:
  assumes "while_valid solve alphas S en lst w = Inr (en', w')" and "log_ok S w"
  shows "log_ok S w'"
  using assms
proof (induction solve alphas S en lst w rule: while_valid.induct)
  case (1 solve alphas S en lst w)
  show ?case
  proof (cases "isValid en")
    case False
    with "1.prems" show ?thesis by (simp add: while_valid.simps)
  next
    case True
    from "1.prems"(1) True obtain w1 index where
      w1: "solve_subset solve alphas S (current en) lst w = Inr w1" and
      ix: "subset_at (snd (advance en)) (fst (advance en)) = Inr index" and
      rest: "(if length alphas \<le> index then Inr (snd (advance en), w1)
              else while_valid solve alphas S (snd (advance en)) (fst (advance en)) w1)
             = Inr (en', w')"
      by (subst (asm) while_valid.simps) (auto split: sum.splits)
    have a1: "log_ok S w1"
      using solve_subset_log_ok [OF w1 "1.prems"(2)] .
    show ?thesis
    proof (cases "length alphas \<le> index")
      case True
      with rest a1 show ?thesis by simp
    next
      case False
      with rest have "while_valid solve alphas S (snd (advance en)) (fst (advance en)) w1 = Inr (en', w')"
        by simp
      from "1.IH" [OF True w1 ix _ this a1] False show ?thesis by simp
    qed
  qed
qed

lemma for_new_log_ok:
  assumes "for_new solve alphas S en w news = Inr w'" and "log_ok S w"
  shows "log_ok S w'"
  using assms
proof (induction news arbitrary: en w)
  case Nil
  then show ?case by simp
next
  case (Cons newV news)
  from Cons.prems(1) obtain r0 en1 w1 where
    "while_valid solve alphas S (reset en) 0 (w\<lparr>w_m := (w_m w)[0 := r0]\<rparr>) = Inr (en1, w1)"
    and r: "for_new solve alphas S en1 w1 news = Inr w'"
    by (auto split: sum.splits)
  from while_valid_log_ok [OF this(1)] Cons.prems(2)
  have "log_ok S w1" by (simp add: log_ok_def)
  from Cons.IH [OF r this] show ?case .
qed

lemma accepted_in_unit:
  assumes "list_all (\<lambda>c. S \<le> length (sc_solution c)) calls" and "v \<in> set (accepted S calls)"
  shows "length (fst v) = S \<and> (\<forall>x \<in> set (fst v). 0 \<le> x \<and> x \<le> 1)"
  using assms by (auto simp: accepted_def list_all_iff in_unit_def)

text \<open>
  C3: whenever \<^verbatim>\<open>findVerticesNaive\<close> returns, every vertex of the list has \<open>S\<close>
  point coordinates, all within \<open>[0, 1]\<close>, and the list is exactly what the accepted
  solutions contribute: a solution with a point coordinate outside \<open>[0, 1]\<close> adds nothing.
\<close>

theorem findVerticesNaive_unit_interval:
  assumes "findVerticesNaive_run solve junk news alphas = Inr (vs, calls)"
  shows "(\<forall>v \<in> set vs. length (fst v) = length (hd alphas) \<and>
            (\<forall>x \<in> set (fst v). 0 \<le> x \<and> x \<le> 1)) \<and>
         vs = accepted (length (hd alphas)) calls"
proof (cases "alphas = []")
  case True
  with assms show ?thesis by (simp add: findVerticesNaive_run_def accepted_def)
next
  case False
  let ?S = "length (hd alphas)"
  from False assms obtain w where
    w: "for_new solve alphas ?S
          (makeSubsetEnumerator (size_t_pred ?S) 0 (length alphas + ?S))
          (initial_workspace junk ?S) news = Inr w"
    and out: "vs = w_vertices w" "calls = w_solved w"
    by (auto simp: findVerticesNaive_run_def Let_def split: sum.splits)
  have "log_ok ?S (initial_workspace junk ?S)"
    by (simp add: initial_workspace_def Let_def accepted_def log_ok_def)
  with w have "log_ok ?S w" by (rule for_new_log_ok)
  with out have "vs = accepted ?S calls" "list_all (\<lambda>c. ?S \<le> length (sc_solution c)) calls"
    by (simp_all add: log_ok_def)
  with accepted_in_unit [of ?S calls] show ?thesis by blast
qed

theorem findVerticesNaive_unit_interval_witness:
  "findVerticesNaive_run cramer3 no_junk [[3, 1]] [[1, 2]] =
     Inr ([([1 / 3, 2 / 3], 5 / 3)],
          [\<lparr>sc_subset = [0], sc_lhs = [[3, 1, - 1], [1, 2, - 1], [1, 1, 0]], sc_rhs = [0, 0, 1],
            sc_solution = [1 / 3, 2 / 3, 5 / 3]\<rparr>]) \<and>
   list_all (\<lambda>v. length (fst v) = length (hd [[1, 2 :: real]]) \<and> list_all in_unit (fst v))
     [([1 / 3, 2 / 3], 5 / 3)] \<and>
   [([1 / 3, 2 / 3], 5 / 3)] =
     accepted (length (hd [[1, 2 :: real]]))
       [\<lparr>sc_subset = [0], sc_lhs = [[3, 1, - 1], [1, 2, - 1], [1, 1, 0]], sc_rhs = [0, 0, 1],
         sc_solution = [1 / 3, 2 / 3, 5 / 3]\<rparr>]"
proof -
  have r: "findVerticesNaive_run cramer3 no_junk [[3, 1]] [[1, 2]] =
     Inr ([([1 / 3, 2 / 3], 5 / 3)],
          [\<lparr>sc_subset = [0], sc_lhs = [[3, 1, - 1], [1, 2, - 1], [1, 1, 0]], sc_rhs = [0, 0, 1],
            sc_solution = [1 / 3, 2 / 3, 5 / 3]\<rparr>])"
    using run_scenario [of cramer3 no_junk] cramer3_scenario by simp
  from findVerticesNaive_unit_interval [OF r] r show ?thesis
    by (simp add: in_unit_def)
qed

section \<open>The row counter stays in range\<close>

lemma list_all_update:
  "list_all P xs \<Longrightarrow> P x \<Longrightarrow> list_all P (xs[i := x])"
  by (induction xs arbitrary: i) (auto split: nat.splits)

lemma fill_rows_in_range:
  assumes "length mx = S + 1" and "list_all (\<lambda>r. length r = S + 1) mx"
    and "c + length idxs \<le> S"
  shows "case fill_rows alphas S idxs (c, mx, bd) of
           Inl e \<Rightarrow> \<not> row_error e
         | Inr (c', mx', bd') \<Rightarrow>
             c' \<le> c + length idxs \<and> length mx' = S + 1 \<and>
             list_all (\<lambda>r. length r = S + 1) mx' \<and> length bd' = length bd"
  using assms
proof (induction idxs arbitrary: c mx bd)
  case Nil
  then show ?case by simp
next
  case (Cons index rest)
  show ?case
  proof (cases "index < length alphas")
    case False
    show ?thesis
    proof (cases "index - length alphas < length bd")
      case True
      from Cons.IH [of mx c "bd[index - length alphas := 0]"] Cons.prems
      have "case fill_rows alphas S rest (c, mx, bd[index - length alphas := 0]) of
           Inl e \<Rightarrow> \<not> row_error e
         | Inr (c', mx', bd') \<Rightarrow>
             c' \<le> c + length rest \<and> length mx' = S + 1 \<and>
             list_all (\<lambda>r. length r = S + 1) mx' \<and> length bd' = length bd"
        by (auto split: sum.splits)
      with False True show ?thesis
        by (auto simp: set_coeff_def split: sum.splits)
    next
      case F2: False
      with False show ?thesis by (simp add: set_coeff_def row_error_def)
    qed
  next
    case True
    from Cons.prems have c: "c < length mx" by simp
    with Cons.prems(2) have len: "length (mx ! c) = S + 1"
      by (simp add: list_all_length)
    show ?thesis
    proof (cases "length (alphas ! index) = S")
      case F3: False
      with True c len show ?thesis by (simp add: set_head_def row_error_def)
    next
      case T3: True
      let ?r = "((alphas ! index) @ drop S (mx ! c))[S := - 1]"
      have lr: "length ?r = S + 1" using T3 len by simp
      have "list_all (\<lambda>r. length r = S + 1) (mx[c := ?r])"
        using Cons.prems(2) lr by (rule list_all_update)
      with Cons.IH [of "mx[c := ?r]" "Suc c" bd] Cons.prems
      have "case fill_rows alphas S rest (Suc c, mx[c := ?r], bd) of
           Inl e \<Rightarrow> \<not> row_error e
         | Inr (c', mx', bd') \<Rightarrow>
             c' \<le> Suc c + length rest \<and> length mx' = S + 1 \<and>
             list_all (\<lambda>r. length r = S + 1) mx' \<and> length bd' = length bd"
        by simp
      with True c len T3 show ?thesis
        by (auto simp: set_head_def set_coeff_def split: sum.splits)
    qed
  qed
qed

lemma solve_subset_in_range:
  assumes "shape S w" and "list_all (call_in_range S) (w_solved w)" and "length sub + 1 \<le> S"
  shows "case solve_subset solve alphas S sub lst w of
           Inl e \<Rightarrow> \<not> row_error e
         | Inr w' \<Rightarrow> shape S w' \<and> list_all (call_in_range S) (w_solved w')"
proof -
  let ?bd0 = "replicate S 1 @ drop S (w_boundary w)"
  have bd0: "length ?bd0 = S + 1" using assms(1) by (simp add: shape_def)
  have "1 + length (drop lst sub) \<le> S" using assms(3) by simp
  with assms(1) have fr: "case fill_rows alphas S (drop lst sub) (1, w_m w, ?bd0) of
           Inl e \<Rightarrow> \<not> row_error e
         | Inr (c', mx', bd') \<Rightarrow>
             c' \<le> 1 + length (drop lst sub) \<and> length mx' = S + 1 \<and>
             list_all (\<lambda>r. length r = S + 1) mx' \<and> length bd' = length ?bd0"
    by (intro fill_rows_in_range) (simp_all add: shape_def)
  show ?thesis
  proof (cases "fill_rows alphas S (drop lst sub) (1, w_m w, ?bd0)")
    case (Inl e)
    with fr show ?thesis by (simp add: solve_subset_def)
  next
    case (Inr t)
    obtain c m1 bd1 where t: "t = (c, m1, bd1)" by (cases t)
    from fr Inr t assms(3) have c: "c \<le> S" and m1: "length m1 = S + 1"
      and rows: "list_all (\<lambda>r. length r = S + 1) m1" and bd1: "length bd1 = S + 1"
      using bd0 by auto
    have rows': "list_all (\<lambda>r. length r = S + 1) (m1[c := bd1])"
      using rows bd1 by (rule list_all_update)
    from c m1 assms(1) rows' bd1 assms(2) Inr t show ?thesis
      by (auto simp: solve_subset_def Let_def set_coeff_def vec_head_def shape_def
          call_in_range_def row_error_def split: sum.splits)
  qed
qed

lemma advance_sized: "subsets_sized k en \<Longrightarrow> subsets_sized k (snd (advance en))"
  by (auto simp: subsets_sized_def advance_def split: list.splits)

lemma current_sized: "subsets_sized k en \<Longrightarrow> isValid en \<Longrightarrow> length (current en) = k"
  by (auto simp: subsets_sized_def isValid_def current_def split: list.splits)

lemma length_combinations: "s \<in> set (combinations k xs) \<Longrightarrow> length s = k"
  by (induction k xs arbitrary: s rule: combinations.induct) auto

lemma reset_sized: "subsets_sized k en \<Longrightarrow> subsets_sized k (reset en)"
  by (auto simp: subsets_sized_def reset_def list_all_iff length_combinations)

lemma make_sized: "subsets_sized k (makeSubsetEnumerator k lo hi)"
  by (auto simp: subsets_sized_def makeSubsetEnumerator_def reset_def list_all_iff length_combinations)

lemma while_valid_in_range:
  assumes "shape S w" and "list_all (call_in_range S) (w_solved w)"
    and "subsets_sized k en" and "k + 1 \<le> S"
  shows "case while_valid solve alphas S en lst w of
           Inl e \<Rightarrow> \<not> row_error e
         | Inr (en', w') \<Rightarrow>
             shape S w' \<and> list_all (call_in_range S) (w_solved w') \<and> subsets_sized k en'"
  using assms
proof (induction solve alphas S en lst w rule: while_valid.induct)
  case (1 solve alphas S en lst w)
  show ?case
  proof (cases "isValid en")
    case False
    with "1.prems" show ?thesis by (simp add: while_valid.simps)
  next
    case True
    with "1.prems" have "length (current en) + 1 \<le> S" by (simp add: current_sized)
    with "1.prems" have body: "case solve_subset solve alphas S (current en) lst w of
           Inl e \<Rightarrow> \<not> row_error e
         | Inr w' \<Rightarrow> shape S w' \<and> list_all (call_in_range S) (w_solved w')"
      by (intro solve_subset_in_range)
    show ?thesis
    proof (cases "solve_subset solve alphas S (current en) lst w")
      case (Inl e)
      with body True show ?thesis by (simp add: while_valid.simps)
    next
      case (Inr w1)
      with body have w1: "shape S w1" "list_all (call_in_range S) (w_solved w1)" by simp_all
      have en1: "subsets_sized k (snd (advance en))" using "1.prems"(3) by (rule advance_sized)
      show ?thesis
      proof (cases "subset_at (snd (advance en)) (fst (advance en))")
        case Inl2: (Inl e)
        then have "e = OutOfRange Buf_enumerator"
          by (auto simp: subset_at_def split: list.splits if_splits)
        with Inl2 Inr True show ?thesis by (simp add: while_valid.simps row_error_def)
      next
        case Inr2: (Inr index)
        show ?thesis
        proof (cases "length alphas \<le> index")
          case T: True
          with Inr Inr2 True w1 en1 show ?thesis by (simp add: while_valid.simps)
        next
          case F: False
          from "1.IH" [OF True Inr Inr2 _ w1 en1 "1.prems"(4)] F
          have "case while_valid solve alphas S (snd (advance en)) (fst (advance en)) w1 of
             Inl e \<Rightarrow> \<not> row_error e
           | Inr (en', w') \<Rightarrow>
               shape S w' \<and> list_all (call_in_range S) (w_solved w') \<and> subsets_sized k en'"
            by simp
          with Inr Inr2 True F show ?thesis by (subst while_valid.simps) simp
        qed
      qed
    qed
  qed
qed

lemma for_new_in_range:
  assumes "shape S w" and "list_all (call_in_range S) (w_solved w)"
    and "subsets_sized k en" and "k + 1 \<le> S"
  shows "case for_new solve alphas S en w news of
           Inl e \<Rightarrow> \<not> row_error e
         | Inr w' \<Rightarrow> shape S w' \<and> list_all (call_in_range S) (w_solved w')"
  using assms
proof (induction news arbitrary: en w)
  case Nil
  then show ?case by simp
next
  case (Cons newV news)
  from Cons.prems(1) have l0: "length (w_m w ! 0) = S + 1"
    by (simp add: shape_def list_all_length)
  show ?case
  proof (cases "length newV = S")
    case False
    with l0 show ?thesis by (simp add: set_head_def row_error_def)
  next
    case True
    let ?w1 = "w\<lparr>w_m := (w_m w)[0 := newV @ drop S (w_m w ! 0)]\<rparr>"
    have "list_all (\<lambda>r. length r = S + 1) ((w_m w)[0 := newV @ drop S (w_m w ! 0)])"
      using Cons.prems(1) True l0 by (intro list_all_update) (simp_all add: shape_def)
    with Cons.prems(1) have s1: "shape S ?w1" by (simp add: shape_def)
    have c1: "list_all (call_in_range S) (w_solved ?w1)" using Cons.prems(2) by simp
    have wv: "case while_valid solve alphas S (reset en) 0 ?w1 of
           Inl e \<Rightarrow> \<not> row_error e
         | Inr (en', w') \<Rightarrow>
             shape S w' \<and> list_all (call_in_range S) (w_solved w') \<and> subsets_sized k en'"
      using s1 c1 reset_sized [OF Cons.prems(3)] Cons.prems(4) by (rule while_valid_in_range)
    show ?thesis
    proof (cases "while_valid solve alphas S (reset en) 0 ?w1")
      case (Inl e)
      with wv True l0 show ?thesis by (simp add: set_head_def)
    next
      case (Inr t)
      obtain en' w' where t: "t = (en', w')" by (cases t)
      with wv Inr have "shape S w'" "list_all (call_in_range S) (w_solved w')" "subsets_sized k en'"
        by simp_all
      from Cons.IH [OF this Cons.prems(4)] Inr t True l0 show ?thesis
        by (simp add: set_head_def)
    qed
  qed
qed

lemma initial_shape: "shape S (initial_workspace junk S)"
proof -
  let ?m0 = "map (\<lambda>i. map (junk i) [0..<S + 1]) [0..<S + 1]"
  have "list_all (\<lambda>r. length r = S + 1) ?m0" by (simp add: list_all_iff del: upt_Suc)
  moreover have "length ((?m0 ! 0)[S := - 1]) = S + 1" by (simp add: nth_append del: upt_Suc)
  ultimately have "list_all (\<lambda>r. length r = S + 1) (?m0[0 := (?m0 ! 0)[S := - 1]])"
    by (rule list_all_update)
  then show ?thesis by (simp add: shape_def initial_workspace_def Let_def del: upt_Suc)
qed

lemma initial_solved: "w_solved (initial_workspace junk S) = []"
  by (simp add: initial_workspace_def Let_def)

text \<open>
  C10: for a non-empty range of old hyperplanes of dimension \<open>S \<ge> 1\<close>,
  \<^verbatim>\<open>findVerticesNaive\<close> never accesses a row of \<^verbatim>\<open>m\<close> or an entry of \<^verbatim>\<open>b\<close> out of
  range, and every system handed to the solver has at most \<open>S + 1\<close> rows: the row counter
  is at most \<open>S\<close> when row \<^verbatim>\<open>counter\<close> is written.
\<close>

theorem findVerticesNaive_rows_in_range:
  assumes "alphas \<noteq> []" and "1 \<le> length (hd alphas)"
  shows "case findVerticesNaive_run solve junk news alphas of
           Inl e \<Rightarrow> e \<noteq> OutOfRange Buf_m \<and> e \<noteq> OutOfRange Buf_b
         | Inr (vs, calls) \<Rightarrow> list_all (call_in_range (length (hd alphas))) calls"
proof -
  let ?S = "length (hd alphas)"
  have "size_t_pred ?S + 1 \<le> ?S" using assms(2) by (cases "hd alphas") (simp_all add: size_t_pred_def)
  with for_new_in_range [OF initial_shape _ make_sized, of ?S junk "size_t_pred ?S" solve alphas 0 "length alphas + ?S" news]
  have "case for_new solve alphas ?S (makeSubsetEnumerator (size_t_pred ?S) 0 (length alphas + ?S))
               (initial_workspace junk ?S) news of
           Inl e \<Rightarrow> \<not> row_error e
         | Inr w' \<Rightarrow> shape ?S w' \<and> list_all (call_in_range ?S) (w_solved w')"
    by (simp add: initial_solved)
  with assms(1) show ?thesis
    by (auto simp: findVerticesNaive_run_def Let_def row_error_def split: sum.splits)
qed

theorem findVerticesNaive_rows_in_range_witness:
  "[[1, 2 :: real]] \<noteq> [] \<and> 1 \<le> length (hd [[1, 2 :: real]]) \<and>
   findVerticesNaive_run cramer3 no_junk [[3, 1]] [[1, 2]] =
     Inr ([([1 / 3, 2 / 3], 5 / 3)],
          [\<lparr>sc_subset = [0], sc_lhs = [[3, 1, - 1], [1, 2, - 1], [1, 1, 0]], sc_rhs = [0, 0, 1],
            sc_solution = [1 / 3, 2 / 3, 5 / 3]\<rparr>]) \<and>
   list_all (call_in_range (length (hd [[1, 2 :: real]])))
     [\<lparr>sc_subset = [0], sc_lhs = [[3, 1, - 1], [1, 2, - 1], [1, 1, 0]], sc_rhs = [0, 0, 1],
       sc_solution = [1 / 3, 2 / 3, 5 / 3]\<rparr>]"
proof -
  have r: "findVerticesNaive_run cramer3 no_junk [[3, 1]] [[1, 2]] =
     Inr ([([1 / 3, 2 / 3], 5 / 3)],
          [\<lparr>sc_subset = [0], sc_lhs = [[3, 1, - 1], [1, 2, - 1], [1, 1, 0]], sc_rhs = [0, 0, 1],
            sc_solution = [1 / 3, 2 / 3, 5 / 3]\<rparr>])"
    using run_scenario [of cramer3 no_junk] cramer3_scenario by simp
  from findVerticesNaive_rows_in_range [of "[[1, 2]]" cramer3 no_junk "[[3, 1]]"] r
  show ?thesis by simp
qed

section \<open>Determinism\<close>

lemma rows_ok_update: "rows_ok S mx \<Longrightarrow> length r = S + 1 \<Longrightarrow> rows_ok S (mx[c := r])"
  by (simp add: rows_ok_def list_all_update)

lemma rows_ok_nth: "rows_ok S mx \<Longrightarrow> c < S + 1 \<Longrightarrow> length (mx ! c) = S + 1"
  by (simp add: rows_ok_def list_all_length)

lemma head_then_last:
  assumes "length a = S" and "length r = S + 1"
  shows "(a @ drop S r)[S := x] = a @ [x]"
proof -
  from assms(2) obtain y where "drop S r = [y]"
    by (cases "drop S r") (auto simp: drop_eq_Nil length_drop dest: arg_cong [where f = length])
  with assms(1) show ?thesis by (simp add: list_update_append)
qed

lemma take_Suc_update:
  "c < length mx \<Longrightarrow> take (Suc c) (mx[c := r]) = take c mx @ [r]"
  by (simp add: take_Suc_conv_app_nth)

lemma same_rows_Suc:
  "rel_sum (=) (same_rows S n (Suc c)) x y \<Longrightarrow> rel_sum (=) (same_rows S n c) x y"
  by (cases x; cases y) (auto simp: same_rows_def)

lemma fill_rows_same:
  assumes "rows_ok S mx" and "rows_ok S mx'" and "take c mx = take c mx'"
  shows "rel_sum (=) (same_rows S (length bd) c)
           (fill_rows alphas S idxs (c, mx, bd)) (fill_rows alphas S idxs (c, mx', bd))"
  using assms
proof (induction idxs arbitrary: c mx mx' bd)
  case Nil
  then show ?case by (simp add: same_rows_def)
next
  case (Cons index rest)
  show ?case
  proof (cases "index < length alphas")
    case False
    show ?thesis
    proof (cases "index - length alphas < length bd")
      case True
      from Cons.IH [OF Cons.prems, of "bd[index - length alphas := 0]"] False True
      show ?thesis by (simp add: set_coeff_def)
    next
      case F2: False
      with False show ?thesis by (simp add: set_coeff_def)
    qed
  next
    case True
    show ?thesis
    proof (cases "c < S + 1")
      case F1: False
      with True Cons.prems show ?thesis by (simp add: rows_ok_def)
    next
      case T1: True
      with Cons.prems have len: "length (mx ! c) = S + 1" "length (mx' ! c) = S + 1"
        by (simp_all add: rows_ok_nth)
      from T1 Cons.prems have c: "c < length mx" "c < length mx'" by (simp_all add: rows_ok_def)
      show ?thesis
      proof (cases "length (alphas ! index) = S")
        case F3: False
        with True c len show ?thesis by (simp add: set_head_def)
      next
        case T3: True
        let ?r = "alphas ! index @ [- 1]"
        have r: "(alphas ! index @ drop S (mx ! c))[S := - 1] = ?r"
          "(alphas ! index @ drop S (mx' ! c))[S := - 1] = ?r"
          using T3 len by (simp_all add: head_then_last)
        have ok: "rows_ok S (mx[c := ?r])" "rows_ok S (mx'[c := ?r])"
          using Cons.prems T3 by (simp_all add: rows_ok_update)
        have tk: "take (Suc c) (mx[c := ?r]) = take (Suc c) (mx'[c := ?r])"
          using c Cons.prems(3) by (simp add: take_Suc_update)
        from Cons.IH [OF ok tk, of bd]
        have "rel_sum (=) (same_rows S (length bd) c)
           (fill_rows alphas S rest (Suc c, mx[c := ?r], bd))
           (fill_rows alphas S rest (Suc c, mx'[c := ?r], bd))"
          by (rule same_rows_Suc)
        with True c len T3 r show ?thesis
          by (simp add: set_head_def set_coeff_def)
      qed
    qed
  qed
qed

lemma shape_rows_ok: "shape S w \<Longrightarrow> rows_ok S (w_m w)"
  by (simp add: shape_def rows_ok_def)

lemma take_1_nth: "xs \<noteq> [] \<Longrightarrow> take (Suc 0) xs = [xs ! 0]"
  by (cases xs) simp_all

lemma solve_subset_unfold:
  assumes "fill_rows alphas S (drop lst sub) (1, w_m w, replicate S 1 @ drop S (w_boundary w))
             = Inr (c, m1, bd1)"
    and "c < length m1" and "c < length (w_b w)"
  shows "solve_subset solve alphas S sub lst w =
     (let res = solve (take (Suc c) (m1[c := bd1])) (take (Suc c) ((w_b w)[c := 1]))
      in solve_subset_tail S res
           \<lparr>w_m = m1[c := bd1], w_boundary = bd1, w_b = (w_b w)[c := 1, c := 0],
            w_result = res, w_vertices = w_vertices w,
            w_solved = w_solved w @
              [\<lparr>sc_subset = sub, sc_lhs = take (Suc c) (m1[c := bd1]),
                sc_rhs = take (Suc c) ((w_b w)[c := 1]), sc_solution = res\<rparr>]\<rparr>)"
  using assms
  by (simp add: solve_subset_def solve_subset_tail_def set_coeff_def vec_head_def Let_def)

lemma drop_last_update: "length xs = Suc S \<Longrightarrow> drop S (xs[S := x]) = [x]"
  by (induction xs arbitrary: S) (auto split: nat.splits)

lemma solve_subset_same:
  assumes "same_system S w w'"
  shows "rel_sum (=) (same_system S)
           (solve_subset solve alphas S sub lst w) (solve_subset solve alphas S sub lst w')"
proof -
  let ?bd0 = "replicate S 1 @ drop S (w_boundary w)"
  from assms have sh: "shape S w" "shape S w'" and bd: "drop S (w_boundary w') = drop S (w_boundary w)"
    and b: "w_b w' = w_b w" and vs: "w_vertices w' = w_vertices w"
    and sv: "w_solved w' = w_solved w" and r0: "w_m w ! 0 = w_m w' ! 0"
    by (simp_all add: same_system_def same_visible_def)
  have ok: "rows_ok S (w_m w)" "rows_ok S (w_m w')" using sh by (simp_all add: shape_rows_ok)
  then have "w_m w \<noteq> []" "w_m w' \<noteq> []" by (auto simp: rows_ok_def)
  with r0 have tk: "take 1 (w_m w) = take 1 (w_m w')" by (simp add: take_1_nth)
  have lb: "length ?bd0 = S + 1" using sh by (simp add: shape_def)
  have fr: "rel_sum (=) (same_rows S (S + 1) 1)
           (fill_rows alphas S (drop lst sub) (1, w_m w, ?bd0))
           (fill_rows alphas S (drop lst sub) (1, w_m w', ?bd0))"
    using fill_rows_same [OF ok tk, of ?bd0 alphas "drop lst sub"] lb by simp
  show ?thesis
  proof (cases "fill_rows alphas S (drop lst sub) (1, w_m w, ?bd0)")
    case (Inl e)
    with fr have "fill_rows alphas S (drop lst sub) (1, w_m w', ?bd0) = Inl e"
      by (cases "fill_rows alphas S (drop lst sub) (1, w_m w', ?bd0)") simp_all
    with Inl bd show ?thesis by (simp add: solve_subset_def)
  next
    case (Inr t)
    obtain c m1 bd1 where t: "t = (c, m1, bd1)" by (cases t)
    from fr Inr t obtain m1' where
      Inr': "fill_rows alphas S (drop lst sub) (1, w_m w', ?bd0) = Inr (c, m1', bd1)"
      and c1: "1 \<le> c" and tk1: "take c m1 = take c m1'"
      and ok1: "rows_ok S m1" "rows_ok S m1'" and lbd1: "length bd1 = S + 1"
      by (cases "fill_rows alphas S (drop lst sub) (1, w_m w', ?bd0)")
         (auto simp: same_rows_def)
    show ?thesis
    proof (cases "c < S + 1")
      case False
      with Inr Inr' t bd ok1 show ?thesis
        by (simp add: solve_subset_def set_coeff_def rows_ok_def)
    next
      case True
      with ok1 have c: "c < length m1" "c < length m1'" by (simp_all add: rows_ok_def)
      from sh True have cb: "c < length (w_b w)" by (simp add: shape_def)
      have lhs: "take (Suc c) (m1'[c := bd1]) = take (Suc c) (m1[c := bd1])"
        using c tk1 by (simp add: take_Suc_update)
      have ok2: "rows_ok S (m1[c := bd1])" "rows_ok S (m1'[c := bd1])"
        using ok1 lbd1 by (simp_all add: rows_ok_update)
      have "(m1[c := bd1]) ! 0 = take (Suc c) (m1[c := bd1]) ! 0" by simp
      also have "\<dots> = take (Suc c) (m1'[c := bd1]) ! 0" by (simp only: lhs)
      also have "\<dots> = (m1'[c := bd1]) ! 0" by simp
      finally have row0: "(m1[c := bd1]) ! 0 = (m1'[c := bd1]) ! 0" .
      define res where "res = solve (take (Suc c) (m1[c := bd1])) (take (Suc c) ((w_b w)[c := 1]))"
      define call where "call = \<lparr>sc_subset = sub, sc_lhs = take (Suc c) (m1[c := bd1]),
            sc_rhs = take (Suc c) ((w_b w)[c := 1]), sc_solution = res\<rparr>"
      define w1 where "w1 = \<lparr>w_m = m1[c := bd1], w_boundary = bd1, w_b = (w_b w)[c := 1, c := 0],
            w_result = res, w_vertices = w_vertices w, w_solved = w_solved w @ [call]\<rparr>"
      define w1' where "w1' = \<lparr>w_m = m1'[c := bd1], w_boundary = bd1, w_b = (w_b w)[c := 1, c := 0],
            w_result = res, w_vertices = w_vertices w, w_solved = w_solved w @ [call]\<rparr>"
      have u: "solve_subset solve alphas S sub lst w = solve_subset_tail S res w1"
        using solve_subset_unfold [OF Inr [unfolded t] c(1) cb, of solve]
        by (simp add: res_def call_def w1_def Let_def)
      have u': "solve_subset solve alphas S sub lst w' = solve_subset_tail S res w1'"
        using solve_subset_unfold [OF Inr' [folded bd] c(2) cb [folded b], of solve]
        by (simp add: res_def call_def w1'_def Let_def lhs b vs sv)
      have rel1: "same_system S w1 w1'"
        using ok2 row0 lbd1 sh
        by (simp add: w1_def w1'_def same_system_def same_visible_def shape_def rows_ok_def)
      then have "same_system S (w1\<lparr>w_vertices := x\<rparr>) (w1'\<lparr>w_vertices := x\<rparr>)" for x
        by (simp add: same_system_def same_visible_def shape_def)
      moreover have "w_vertices w1' = w_vertices w1" by (simp add: w1_def w1'_def)
      ultimately show ?thesis
        using rel1 unfolding u u' by (simp add: solve_subset_tail_def)
    qed
  qed
qed

lemma while_valid_same:
  "\<forall>w'. same_system S w w' \<longrightarrow>
     rel_sum (=) (rel_prod (=) (same_system S))
       (while_valid solve alphas S en lst w) (while_valid solve alphas S en lst w')"
proof (induction solve alphas S en lst w rule: while_valid.induct)
  case (1 solve alphas S en lst w)
  show ?case
  proof (intro allI impI)
    fix w'
    assume rel: "same_system S w w'"
    show "rel_sum (=) (rel_prod (=) (same_system S))
       (while_valid solve alphas S en lst w) (while_valid solve alphas S en lst w')"
    proof (cases "isValid en")
      case False
      with rel show ?thesis by (simp add: while_valid.simps)
    next
      case True
      have body: "rel_sum (=) (same_system S)
           (solve_subset solve alphas S (current en) lst w)
           (solve_subset solve alphas S (current en) lst w')"
        using rel by (rule solve_subset_same)
      show ?thesis
      proof (cases "solve_subset solve alphas S (current en) lst w")
        case (Inl e)
        with body have "solve_subset solve alphas S (current en) lst w' = Inl e"
          by (cases "solve_subset solve alphas S (current en) lst w'") simp_all
        with Inl True show ?thesis by (simp add: while_valid.simps)
      next
        case (Inr w1)
        with body obtain w1' where
          Inr': "solve_subset solve alphas S (current en) lst w' = Inr w1'"
          and rel1: "same_system S w1 w1'"
          by (cases "solve_subset solve alphas S (current en) lst w'") simp_all
        show ?thesis
        proof (cases "subset_at (snd (advance en)) (fst (advance en))")
          case Inl2: (Inl e)
          with Inr Inr' True show ?thesis by (simp add: while_valid.simps)
        next
          case Inr2: (Inr index)
          show ?thesis
          proof (cases "length alphas \<le> index")
            case T: True
            with Inr Inr' Inr2 True rel1 show ?thesis by (simp add: while_valid.simps)
          next
            case F: False
            from "1.IH" [OF True Inr Inr2] F rel1
            have "rel_sum (=) (rel_prod (=) (same_system S))
               (while_valid solve alphas S (snd (advance en)) (fst (advance en)) w1)
               (while_valid solve alphas S (snd (advance en)) (fst (advance en)) w1')"
              by simp
            with Inr Inr' Inr2 True F show ?thesis
              by (subst while_valid.simps, subst (2) while_valid.simps) simp
          qed
        qed
      qed
    qed
  qed
qed

lemma for_new_same:
  assumes "same_visible S w w'"
  shows "rel_sum (=) (same_visible S)
           (for_new solve alphas S en w news) (for_new solve alphas S en w' news)"
  using assms
proof (induction news arbitrary: en w w')
  case Nil
  then show ?case by simp
next
  case (Cons newV news)
  from Cons.prems have sh: "shape S w" "shape S w'"
    and d0: "drop S (w_m w ! 0) = drop S (w_m w' ! 0)"
    by (simp_all add: same_visible_def)
  then have l0: "length (w_m w ! 0) = S + 1" "length (w_m w' ! 0) = S + 1"
    by (simp_all add: shape_def list_all_length)
  show ?case
  proof (cases "length newV = S")
    case False
    with l0 show ?thesis by (simp add: set_head_def)
  next
    case True
    let ?r0 = "newV @ drop S (w_m w ! 0)"
    let ?w1 = "w\<lparr>w_m := (w_m w)[0 := ?r0]\<rparr>"
    let ?w1' = "w'\<lparr>w_m := (w_m w')[0 := ?r0]\<rparr>"
    have lr: "length ?r0 = S + 1" using True l0 by simp
    have "rows_ok S ((w_m w)[0 := ?r0])" "rows_ok S ((w_m w')[0 := ?r0])"
      using sh lr by (simp_all add: shape_rows_ok rows_ok_update)
    with Cons.prems have rel1: "same_system S ?w1 ?w1'"
      by (simp add: same_system_def same_visible_def shape_def rows_ok_def)
    from while_valid_same [rule_format, OF rel1]
    have wv: "rel_sum (=) (rel_prod (=) (same_system S))
       (while_valid solve alphas S (reset en) 0 ?w1) (while_valid solve alphas S (reset en) 0 ?w1')" .
    show ?thesis
    proof (cases "while_valid solve alphas S (reset en) 0 ?w1")
      case (Inl e)
      with wv have "while_valid solve alphas S (reset en) 0 ?w1' = Inl e"
        by (cases "while_valid solve alphas S (reset en) 0 ?w1'") simp_all
      with Inl True l0 d0 show ?thesis by (simp add: set_head_def)
    next
      case (Inr t)
      obtain en1 w1 where t: "t = (en1, w1)" by (cases t)
      with wv Inr obtain w1' where
        Inr': "while_valid solve alphas S (reset en) 0 ?w1' = Inr (en1, w1')"
        and "same_system S w1 w1'"
        by (cases "while_valid solve alphas S (reset en) 0 ?w1'") auto
      then have "same_visible S w1 w1'" by (simp add: same_system_def)
      from Cons.IH [OF this, of en1] Inr Inr' t True l0 d0 show ?thesis
        by (simp add: set_head_def)
    qed
  qed
qed

lemma initial_same: "same_visible S (initial_workspace junk S) (initial_workspace junk' S)"
proof -
  have "drop S (w_m (initial_workspace junk S) ! 0) = [- 1]" for junk
    by (simp add: initial_workspace_def Let_def drop_last_update del: upt_Suc)
  moreover have "drop S (w_boundary (initial_workspace junk S)) = [0]" for junk
    by (simp add: initial_workspace_def Let_def drop_last_update del: upt_Suc)
  ultimately show ?thesis
    by (simp add: same_visible_def initial_shape) (simp add: initial_workspace_def Let_def)
qed

text \<open>
  C9: two calls of \<^verbatim>\<open>findVerticesNaive\<close> on the same new and old hyperplanes return the
  same list, whatever the uninitialised storage of the matrix and of the vectors holds; the
  two lists are in particular equal as multisets, and the same systems are solved.
\<close>

theorem findVerticesNaive_deterministic:
  "findVerticesNaive solve junk news alphas = findVerticesNaive solve junk' news alphas \<and>
   map_sum id mset (findVerticesNaive solve junk news alphas) =
     map_sum id mset (findVerticesNaive solve junk' news alphas) \<and>
   findVerticesNaive_run solve junk news alphas = findVerticesNaive_run solve junk' news alphas"
proof -
  have "findVerticesNaive_run solve junk news alphas = findVerticesNaive_run solve junk' news alphas"
  proof (cases "alphas = []")
    case True
    then show ?thesis by (simp add: findVerticesNaive_run_def)
  next
    case False
    let ?S = "length (hd alphas)"
    let ?en = "makeSubsetEnumerator (size_t_pred ?S) 0 (length alphas + ?S)"
    have "rel_sum (=) (same_visible ?S)
           (for_new solve alphas ?S ?en (initial_workspace junk ?S) news)
           (for_new solve alphas ?S ?en (initial_workspace junk' ?S) news)"
      using initial_same by (rule for_new_same)
    then show ?thesis
      by (cases "for_new solve alphas ?S ?en (initial_workspace junk ?S) news";
          cases "for_new solve alphas ?S ?en (initial_workspace junk' ?S) news")
         (simp_all add: findVerticesNaive_run_def Let_def same_visible_def)
  qed
  then show ?thesis by (simp add: findVerticesNaive_def)
qed

section \<open>The scenario of dimension two\<close>

text \<open>
  C4, as amended: for the new hyperplane \<open>(3, 1)\<close> and the old hyperplane \<open>(1, 2)\<close>,
  with a solver that solves the one system it is given, \<^verbatim>\<open>findVerticesNaive\<close> returns
  exactly one vertex, the crossing point \<open>(1/3, 2/3)\<close> of the two hyperplanes with the value
  \<open>5/3\<close>; its coordinates sum to 1 and lie within \<open>[0, 1]\<close>.
\<close>

theorem findVerticesNaive_scenario:
  assumes "solves solve [[3, 1, - 1], [1, 2, - 1], [1, 1, 0]] [0, 0, 1]"
  shows "findVerticesNaive solve junk [[3, 1]] [[1, 2]] = Inr [([1 / 3, 2 / 3], 5 / 3)]"
  using run_scenario [of solve junk] solves_scenario_unique [OF assms]
  by (simp add: findVerticesNaive_def)

theorem findVerticesNaive_scenario_witness:
  "solves cramer3 [[3, 1, - 1], [1, 2, - 1], [1, 1, 0]] [0, 0, 1] \<and>
   findVerticesNaive cramer3 no_junk [[3, 1]] [[1, 2]] = Inr [([1 / 3, 2 / 3], 5 / 3)]"
  using solves_cramer3_scenario findVerticesNaive_scenario [OF solves_cramer3_scenario, of no_junk]
  by simp

text \<open>
  C4 fails as stated: the two subsets that hold a boundary facet only are never solved, so
  neither corner \<open>(0, 1)\<close> nor corner \<open>(1, 0)\<close> is returned.
\<close>

theorem findVerticesNaive_scenario_corners_missing:
  "findVerticesNaive cramer3 no_junk [[3, 1]] [[1, 2]] = Inr [([1 / 3, 2 / 3], 5 / 3)] \<and>
   \<not> returns_point (findVerticesNaive cramer3 no_junk [[3, 1]] [[1, 2]]) [0, 1] \<and>
   \<not> returns_point (findVerticesNaive cramer3 no_junk [[3, 1]] [[1, 2]]) [1, 0]"
  using run_scenario [of cramer3 no_junk] cramer3_scenario
  by (simp add: findVerticesNaive_def returns_point_def)

section \<open>When the inner loop stops\<close>

text \<open>
  With three old hyperplanes of dimension \<open>S = 3\<close> the loop goes on to the subset
  \<open>{0, 2}\<close>. The rows are filled from position \<^verbatim>\<open>last\<close> = 1 on while \<^verbatim>\<open>counter\<close>
  restarts at 1, so the system solved for \<open>{0, 2}\<close> holds the new hyperplane, the old
  hyperplane 2 and the boundary row, and not the old hyperplane 0. The next advance, to
  \<open>{0, 3}\<close>, ends the loop.
\<close>

lemma findVerticesNaive_second_system:
  "findVerticesNaive_run zero_solver no_junk [[0, 0, 0]] [[1, 2, 3], [4, 5, 6], [7, 8, 9]] =
     Inr ([([0, 0, 0], 0), ([0, 0, 0], 0)],
          [\<lparr>sc_subset = [0, 1],
            sc_lhs = [[0, 0, 0, - 1], [1, 2, 3, - 1], [4, 5, 6, - 1], [1, 1, 1, 0]],
            sc_rhs = [0, 0, 0, 1], sc_solution = [0, 0, 0, 0]\<rparr>,
           \<lparr>sc_subset = [0, 2],
            sc_lhs = [[0, 0, 0, - 1], [7, 8, 9, - 1], [1, 1, 1, 0]],
            sc_rhs = [0, 0, 1], sc_solution = [0, 0, 0, 0]\<rparr>])"
  by (simp add: run_defs zero_solver_def no_junk_def numeral_2_eq_2 numeral_3_eq_3)

text \<open>
  C1: for \<open>S = 3\<close> and one old hyperplane, the inner loop solves the system of the subset
  \<open>{0, 1}\<close> only. The advance to \<open>{0, 2}\<close> changes position 1, where the index 2 is not
  below the number of old hyperplanes, and the loop is left; the subsets \<open>{0, 2}\<close> and
  \<open>{0, 3}\<close>, which contain the old hyperplane 0, are never solved.
\<close>

theorem findVerticesNaive_stops_with_old_left:
  "solved_subsets (findVerticesNaive_run zero_solver no_junk [[0, 0, 0]] [[1, 2, 3]]) = [[0, 1]] \<and>
   combinations 2 [0..<1 + 3] = [[0, 1], [0, 2], [0, 3], [1, 2], [1, 3], [2, 3]] \<and>
   has_old 1 [0, 2] \<and> has_old 1 [0, 3]"
  by (simp add: run_three solved_subsets_def has_old_def numeral_2_eq_2 upt_rec)

end
